theory Spec2Isabelle
  imports Main "HOL-Library.Sublist" "HOL-Library.Multiset"
begin

text \<open>
  The article collector of the notebook \<open>NewsAPI.ipynb\<close>: \<open>request_api\<close>,
  \<open>clean_text\<close> and the collection loop of the last code cell, with the values of
  \<open>json.loads\<close> and the exceptions of Python made explicit. Output by \<open>print\<close> is
  left out.
\<close>

section \<open>Python strings\<close>

text \<open>
  A Python \<open>str\<close> is a sequence of Unicode code points. The repair table of
  \<open>clean_text\<close> uses code points above 255 (U+20AC, U+2122, U+FFFD, ...), so a string
  is a list of natural numbers, one per code point. \<open>lit\<close> writes an ASCII literal of
  the source.
\<close>

type_synonym pystr = "nat list"

definition lit :: "string \<Rightarrow> pystr" where
  "lit s = map of_char s"

text \<open>
  \<open>old in s\<close> for strings: \<open>old\<close> occurs in \<open>s\<close> as a contiguous run.
\<close>

fun contains :: "'a list \<Rightarrow> 'a list \<Rightarrow> bool" where
  "contains old [] = (old = [])"
| "contains old (x # xs) = (prefix old (x # xs) \<or> contains old xs)"

text \<open>
  \<open>s.replace(old, new)\<close>: the occurrences of \<open>old\<close> are found from the left and do
  not overlap; each is replaced by \<open>new\<close>. With an empty \<open>old\<close> Python puts \<open>new\<close>
  before every character and at the end.
\<close>

function str_replace :: "'a list \<Rightarrow> 'a list \<Rightarrow> 'a list \<Rightarrow> 'a list" where
  "str_replace old new [] = (if old = [] then new else [])"
| "str_replace old new (x # xs) =
     (if old = [] then new @ concat (map (\<lambda>c. c # new) (x # xs))
      else if prefix old (x # xs)
        then new @ str_replace old new (drop (length old) (x # xs))
        else x # str_replace old new xs)"
  by pat_completeness auto

termination
  by (relation "measure (\<lambda>(old, new, s). length s)") auto

text \<open>
  \<open>clean_text\<close> of the notebook: seven chained \<open>replace\<close> calls, in the order of the
  source. The patterns are the mis-decoded sequences
  U+00E2 U+20AC U+2122, U+00E2 U+20AC U+0153, U+00E2 U+20AC U+FFFD, U+00E2 U+20AC U+00A2,
  U+00C3 U+00A9, U+00C3 U+00BC and U+00E2 U+20AC U+201C; the replacements are
  the ASCII characters \<open>'\<close>, \<open>"\<close>, \<open>"\<close>, \<open>*\<close>, \<open>e\<close>, \<open>u\<close> and \<open>-\<close>.
\<close>

definition clean_text :: "pystr \<Rightarrow> pystr" where
  "clean_text text =
     str_replace [226, 8364, 8220] [45]
    (str_replace [195, 188] [117]
    (str_replace [195, 169] [101]
    (str_replace [226, 8364, 162] [42]
    (str_replace [226, 8364, 65533] [34]
    (str_replace [226, 8364, 339] [34]
    (str_replace [226, 8364, 8482] [39] text))))))"

text \<open>The same table as data: (pattern, replacement), in the order of the source.\<close>

definition repair_table :: "(pystr \<times> pystr) list" where
  "repair_table =
     [([226, 8364, 8482], [39]),
      ([226, 8364, 339], [34]),
      ([226, 8364, 65533], [34]),
      ([226, 8364, 162], [42]),
      ([195, 169], [101]),
      ([195, 188], [117]),
      ([226, 8364, 8220], [45])]"

text \<open>Applying a list of substitutions one after the other, the first of the list first.\<close>

definition apply_substs :: "(pystr \<times> pystr) list \<Rightarrow> pystr \<Rightarrow> pystr" where
  "apply_substs tab text = fold (\<lambda>(old, new). str_replace old new) tab text"

text \<open>
  Two entries of a substitution table that cannot interfere: the patterns are not
  empty, each replacement is one character that occurs in neither pattern, no
  pattern starts inside the other, and neither is the beginning of the other.
\<close>

definition separate :: "pystr \<times> pystr \<Rightarrow> pystr \<times> pystr \<Rightarrow> bool" where
  "separate a b = (case (a, b) of ((p, r), (q, t)) \<Rightarrow>
     p \<noteq> [] \<and> q \<noteq> [] \<and> length r = 1 \<and> length t = 1 \<and>
     set r \<inter> (set p \<union> set q) = {} \<and> set t \<inter> (set p \<union> set q) = {} \<and>
     hd q \<notin> set (tl p) \<and> hd p \<notin> set (tl q) \<and> \<not> prefix p q \<and> \<not> prefix q p)"

section \<open>Values of the notebook\<close>

text \<open>
  The exceptions the notebook's code can raise. The \<open>try\<close> of the collection loop has a
  bare \<open>except\<close>, so it catches every one of them.
\<close>

datatype pyerror =
    KeyError | IndexError | TypeError | AttributeError | JSONDecodeError | RequestException

text \<open>
  What \<open>json.loads\<close> returns: \<open>None\<close>, a bool, a number, a \<open>str\<close>, a \<open>list\<close> or a
  \<open>dict\<close> with \<open>str\<close> keys. A dict is an association list in insertion order, looked up
  with \<open>map_of\<close>; \<open>json.loads\<close> produces distinct keys. The notebook does no arithmetic:
  a number only fails a subscript, an iteration or a \<open>replace\<close>, whatever its value, so
  numbers are integers here.
\<close>

datatype json =
    JNull
  | JBool bool
  | JNum int
  | JStr pystr
  | JArr "json list"
  | JObj "(pystr \<times> json) list"

text \<open>
  Sequencing of statements that may raise: the first exception ends the computation.
\<close>

fun and_then :: "'e + 'a \<Rightarrow> ('a \<Rightarrow> 'e + 'b) \<Rightarrow> 'e + 'b" where
  "and_then (Inl err) f = Inl err"
| "and_then (Inr x) f = f x"

text \<open>\<open>v[k]\<close> with a \<open>str\<close> key \<open>k\<close>.\<close>

fun getitem_key :: "json \<Rightarrow> pystr \<Rightarrow> pyerror + json" where
  "getitem_key (JObj kvs) k = (case map_of kvs k of None \<Rightarrow> Inl KeyError | Some v \<Rightarrow> Inr v)"
| "getitem_key JNull k = Inl TypeError"
| "getitem_key (JBool b) k = Inl TypeError"
| "getitem_key (JNum n) k = Inl TypeError"
| "getitem_key (JStr s) k = Inl TypeError"
| "getitem_key (JArr xs) k = Inl TypeError"

text \<open>
  \<open>v[0]\<close>. A dict from JSON has only \<open>str\<close> keys, so the key \<open>0\<close> is never there.
\<close>

fun getitem_0 :: "json \<Rightarrow> pyerror + json" where
  "getitem_0 (JArr xs) = (case xs of [] \<Rightarrow> Inl IndexError | x # _ \<Rightarrow> Inr x)"
| "getitem_0 (JStr s) = (case s of [] \<Rightarrow> Inl IndexError | c # _ \<Rightarrow> Inr (JStr [c]))"
| "getitem_0 (JObj kvs) = Inl KeyError"
| "getitem_0 JNull = Inl TypeError"
| "getitem_0 (JBool b) = Inl TypeError"
| "getitem_0 (JNum n) = Inl TypeError"

text \<open>
  \<open>for x in v\<close>: the elements of a list, the characters of a \<open>str\<close>, the keys of a dict;
  nothing else from JSON is iterable.
\<close>

fun py_iter :: "json \<Rightarrow> pyerror + json list" where
  "py_iter (JArr xs) = Inr xs"
| "py_iter (JStr s) = Inr (map (\<lambda>c. JStr [c]) s)"
| "py_iter (JObj kvs) = Inr (map (\<lambda>(k, v). JStr k) kvs)"
| "py_iter JNull = Inl TypeError"
| "py_iter (JBool b) = Inl TypeError"
| "py_iter (JNum n) = Inl TypeError"

text \<open>\<open>len(v)\<close>.\<close>

fun py_len :: "json \<Rightarrow> pyerror + nat" where
  "py_len (JArr xs) = Inr (length xs)"
| "py_len (JStr s) = Inr (length s)"
| "py_len (JObj kvs) = Inr (length kvs)"
| "py_len JNull = Inl TypeError"
| "py_len (JBool b) = Inl TypeError"
| "py_len (JNum n) = Inl TypeError"

text \<open>
  \<open>clean_text(v)\<close> on a value from JSON: only a \<open>str\<close> has the method \<open>replace\<close>.
\<close>

fun clean_text_of :: "json \<Rightarrow> pyerror + pystr" where
  "clean_text_of (JStr s) = Inr (clean_text s)"
| "clean_text_of JNull = Inl AttributeError"
| "clean_text_of (JBool b) = Inl AttributeError"
| "clean_text_of (JNum n) = Inl AttributeError"
| "clean_text_of (JArr xs) = Inl AttributeError"
| "clean_text_of (JObj kvs) = Inl AttributeError"

section \<open>request_api\<close>

text \<open>A keyword argument of \<open>request_api\<close> is an \<open>int\<close> or a \<open>str\<close>.\<close>

datatype pyval = PInt int | PStr pystr

text \<open>The decimal digits of a natural number, as code points (\<open>0\<close> is 48).\<close>

function digits :: "nat \<Rightarrow> pystr" where
  "digits n = (if n < 10 then [48 + n] else digits (n div 10) @ [48 + n mod 10])"
  by pat_completeness auto

termination
  by (relation "measure id") auto

text \<open>\<open>str(value)\<close>; the minus sign is code point 45.\<close>

fun py_str :: "pyval \<Rightarrow> pystr" where
  "py_str (PInt i) = (if i < 0 then 45 # digits (nat (- i)) else digits (nat i))"
| "py_str (PStr s) = s"

definition API_SITE :: pystr where
  "API_SITE = lit ''https://content.guardianapis.com/''"

text \<open>
  The \<open>for key, value in params.items()\<close> loop: each parameter is put in front of the
  query string built so far.
\<close>

fun build_queries :: "(pystr \<times> pyval) list \<Rightarrow> pystr \<Rightarrow> pystr" where
  "build_queries [] queries = queries"
| "build_queries ((key, val) # params) queries =
     build_queries params
       (str_replace (lit ''_'') (lit ''-'') key @ lit ''='' @ py_str val @ lit ''&'' @ queries)"

definition request_url :: "pystr \<Rightarrow> pystr \<Rightarrow> (pystr \<times> pyval) list \<Rightarrow> pystr" where
  "request_url endpoint apiKey params =
     API_SITE @ endpoint @ lit ''?'' @ build_queries params (lit ''api-key='' @ apiKey)"

text \<open>
  An HTTP response: its status code and the value of \<open>json.loads(response.text)\<close>,
  \<open>None\<close> when the body is not JSON and \<open>json.loads\<close> raises.
\<close>

record response =
  status_code :: int
  loads_text :: "json option"

text \<open>
  \<open>requests.get\<close> is the upstream: a function from the URL to a response, or to the
  exception it raises.
\<close>

type_synonym upstream = "pystr \<Rightarrow> pyerror + response"

definition request_api :: "upstream \<Rightarrow> pystr \<Rightarrow> pystr \<Rightarrow> (pystr \<times> pyval) list \<Rightarrow> pyerror + response" where
  "request_api requests_get endpoint apiKey params =
     requests_get (request_url endpoint apiKey params)"

section \<open>The collection loop\<close>

text \<open>A collected article, the dict appended to \<open>all_articles\<close>.\<close>

record article =
  art_title :: pystr
  art_date :: json
  art_authors :: "pystr list"
  art_text :: pystr

text \<open>
  The variables of the last cell that the loop reads, and the upstream. The notebook
  sets \<open>max_limit = 20\<close>, \<open>page_limit = 50\<close> and the two dates.
\<close>

record config =
  requests_get :: upstream
  API_KEY :: pystr
  max_limit :: nat
  from_date :: pystr
  to_date :: pystr
  page_limit :: nat

definition notebook :: "upstream \<Rightarrow> pystr \<Rightarrow> config" where
  "notebook get key =
     \<lparr>requests_get = get, API_KEY = key, max_limit = 20,
      from_date = lit ''2021-03-11'', to_date = lit ''2021-03-12'', page_limit = 50\<rparr>"

text \<open>The call of \<open>request_api\<close> in the loop, for one page.\<close>

definition page_params :: "config \<Rightarrow> nat \<Rightarrow> (pystr \<times> pyval) list" where
  "page_params cfg page =
     [(lit ''page'', PInt (int page)),
      (lit ''page_size'', PInt (int (page_limit cfg))),
      (lit ''from_date'', PStr (from_date cfg)),
      (lit ''to_date'', PStr (to_date cfg)),
      (lit ''show_tags'', PStr (lit ''contributor'')),
      (lit ''show_blocks'', PStr (lit ''body''))]"

definition fetch_page :: "config \<Rightarrow> nat \<Rightarrow> pyerror + response" where
  "fetch_page cfg page =
     request_api (requests_get cfg) (lit ''search'') (API_KEY cfg) (page_params cfg page)"

text \<open>\<open>json.loads(response.text)['response']['results']\<close>.\<close>

definition parse_results :: "response \<Rightarrow> pyerror + json" where
  "parse_results resp =
     (case loads_text resp of
        None \<Rightarrow> Inl JSONDecodeError
      | Some doc \<Rightarrow>
          and_then (getitem_key doc (lit ''response'')) (\<lambda>r. getitem_key r (lit ''results'')))"

text \<open>
  The loop over \<open>entry['tags']\<close>: \<open>authors\<close> is a local list, lost when a tag raises.
\<close>

fun collect_authors :: "json list \<Rightarrow> pystr list \<Rightarrow> pyerror + pystr list" where
  "collect_authors [] authors = Inr authors"
| "collect_authors (tag # tags) authors =
     (case getitem_key tag (lit ''type'') of
        Inl err \<Rightarrow> Inl err
      | Inr ty \<Rightarrow>
          if ty \<noteq> JStr (lit ''contributor'') then collect_authors tags authors
          else (case getitem_key tag (lit ''webTitle'') of
                  Inl err \<Rightarrow> Inl err
                | Inr name \<Rightarrow>
                    (case clean_text_of name of
                       Inl err \<Rightarrow> Inl err
                     | Inr a \<Rightarrow> collect_authors tags (authors @ [a]))))"

text \<open>
  The field extraction for one entry that passed the filter, in the order of the
  source: title, date, authors, text.
\<close>

definition extract_entry :: "json \<Rightarrow> pyerror + article" where
  "extract_entry entry =
     and_then (getitem_key entry (lit ''webTitle'')) (\<lambda>wt.
     and_then (clean_text_of wt) (\<lambda>title.
     and_then (getitem_key entry (lit ''webPublicationDate'')) (\<lambda>date.
     and_then (getitem_key entry (lit ''tags'')) (\<lambda>tg.
     and_then (py_iter tg) (\<lambda>tags.
     and_then (collect_authors tags []) (\<lambda>authors.
     and_then (getitem_key entry (lit ''blocks'')) (\<lambda>blocks.
     and_then (getitem_key blocks (lit ''body'')) (\<lambda>body.
     and_then (getitem_0 body) (\<lambda>block.
     and_then (getitem_key block (lit ''bodyTextSummary'')) (\<lambda>summary.
     and_then (clean_text_of summary) (\<lambda>txt.
     Inr \<lparr>art_title = title, art_date = date, art_authors = authors,
          art_text = txt\<rparr>)))))))))))"

text \<open>
  The loop over \<open>results\<close>. \<open>all_articles\<close> is mutated in place, so what was appended
  before an exception stays: the function returns the list together with the exception,
  if any.
\<close>

fun process_results :: "json list \<Rightarrow> article list \<Rightarrow> article list \<times> pyerror option" where
  "process_results [] all_articles = (all_articles, None)"
| "process_results (entry # results) all_articles =
     (case getitem_key entry (lit ''type'') of
        Inl err \<Rightarrow> (all_articles, Some err)
      | Inr ty \<Rightarrow>
          if ty \<noteq> JStr (lit ''article'') then process_results results all_articles
          else (case extract_entry entry of
                  Inl err \<Rightarrow> (all_articles, Some err)
                | Inr a \<Rightarrow> process_results results (all_articles @ [a])))"

text \<open>
  The state of the loop: the accumulator, and the pages for which \<open>request_api\<close> was
  called, in order.
\<close>

record state =
  all_articles :: "article list"
  fetched :: "nat list"

datatype ctl = Continue | Break

text \<open>
  The body of the \<open>try\<close> for one page: the new state, and how the body ended (it fell
  through to the next page, reached a \<open>break\<close>, or raised).
\<close>

definition page_body :: "config \<Rightarrow> nat \<Rightarrow> state \<Rightarrow> state \<times> (pyerror + ctl)" where
  "page_body cfg page st =
     (let st1 = st\<lparr>fetched := fetched st @ [page]\<rparr> in
      (case fetch_page cfg page of
         Inl err \<Rightarrow> (st1, Inl err)
       | Inr resp \<Rightarrow>
          (if status_code resp \<noteq> 200 then (st1, Inr Break)
           else (case parse_results resp of
                   Inl err \<Rightarrow> (st1, Inl err)
                 | Inr results \<Rightarrow>
                    (case py_iter results of
                       Inl err \<Rightarrow> (st1, Inl err)
                     | Inr entries \<Rightarrow>
                        (case process_results entries (all_articles st1) of
                           (acc, Some err) \<Rightarrow> (st1\<lparr>all_articles := acc\<rparr>, Inl err)
                         | (acc, None) \<Rightarrow>
                            (case py_len results of
                               Inl err \<Rightarrow> (st1\<lparr>all_articles := acc\<rparr>, Inl err)
                             | Inr n \<Rightarrow>
                                (st1\<lparr>all_articles := acc\<rparr>,
                                 Inr (if n < page_limit cfg then Break else Continue)))))))))"

text \<open>
  \<open>for page in range(1, max_limit + 1)\<close> with its \<open>try\<close>: an exception is caught and
  breaks the loop, as a \<open>break\<close> does.
\<close>

fun collect_pages :: "config \<Rightarrow> nat list \<Rightarrow> state \<Rightarrow> state" where
  "collect_pages cfg [] st = st"
| "collect_pages cfg (page # pages) st =
     (case page_body cfg page st of
        (st', Inl err) \<Rightarrow> st'
      | (st', Inr Break) \<Rightarrow> st'
      | (st', Inr Continue) \<Rightarrow> collect_pages cfg pages st')"

definition collect :: "config \<Rightarrow> state" where
  "collect cfg =
     collect_pages cfg [1..<max_limit cfg + 1] \<lparr>all_articles = [], fetched = []\<rparr>"

section \<open>Notions used to state the properties\<close>

text \<open>The state in which the loop starts.\<close>

definition init_state :: state where
  "init_state = \<lparr>all_articles = [], fetched = []\<rparr>"

text \<open>
  The entries the loop iterates over on a page: those of \<open>results\<close> when the response
  has status 200 and \<open>results\<close> can be read and iterated, none otherwise.
\<close>

definition page_entries :: "config \<Rightarrow> nat \<Rightarrow> json list" where
  "page_entries cfg page =
     (case fetch_page cfg page of
        Inl err \<Rightarrow> []
      | Inr resp \<Rightarrow>
          (if status_code resp \<noteq> 200 then []
           else (case and_then (parse_results resp) py_iter of
                   Inl err \<Rightarrow> []
                 | Inr entries \<Rightarrow> entries)))"

text \<open>An entry that has a kind, and the kind is not \<open>article\<close>.\<close>

definition other_kind :: "json \<Rightarrow> bool" where
  "other_kind entry =
     (case getitem_key entry (lit ''type'') of
        Inl err \<Rightarrow> False
      | Inr ty \<Rightarrow> ty \<noteq> JStr (lit ''article''))"

text \<open>
  The records of the data model (ArticleRecord), in the upstream's JSON, as far as the
  loop reads them: the kind \<open>article\<close>, a title that is a string, a publication date,
  a list of tags that each have a kind, and a name that is a string when the kind is
  \<open>contributor\<close>, and a list of body blocks whose first block has a text summary that
  is a string. The data model has exactly one body block for an article; the loop reads
  the first, so any number of further blocks is allowed here.
\<close>

definition has_str :: "json \<Rightarrow> pystr \<Rightarrow> bool" where
  "has_str v k = (case getitem_key v k of Inr (JStr s) \<Rightarrow> True | _ \<Rightarrow> False)"

definition has_key :: "json \<Rightarrow> pystr \<Rightarrow> bool" where
  "has_key v k = (case getitem_key v k of Inr x \<Rightarrow> True | Inl err \<Rightarrow> False)"

definition tag_record :: "json \<Rightarrow> bool" where
  "tag_record tag =
     (has_key tag (lit ''type'')
      \<and> (getitem_key tag (lit ''type'') = Inr (JStr (lit ''contributor''))
           \<longrightarrow> has_str tag (lit ''webTitle'')))"

definition article_record :: "json \<Rightarrow> bool" where
  "article_record entry =
     (getitem_key entry (lit ''type'') = Inr (JStr (lit ''article''))
      \<and> has_str entry (lit ''webTitle'')
      \<and> has_key entry (lit ''webPublicationDate'')
      \<and> (case getitem_key entry (lit ''tags'') of
            Inr (JArr tags) \<Rightarrow> list_all tag_record tags
          | _ \<Rightarrow> False)
      \<and> (case and_then (getitem_key entry (lit ''blocks'')) (\<lambda>b. getitem_key b (lit ''body'')) of
            Inr (JArr (block # others)) \<Rightarrow> has_str block (lit ''bodyTextSummary'')
          | _ \<Rightarrow> False))"

text \<open>\<open>entry['blocks']['body'][0]['bodyTextSummary']\<close>, as the loop reads it.\<close>

definition body_summary :: "json \<Rightarrow> pyerror + json" where
  "body_summary entry =
     and_then (getitem_key entry (lit ''blocks'')) (\<lambda>blocks.
     and_then (getitem_key blocks (lit ''body'')) (\<lambda>body.
     and_then (getitem_0 body) (\<lambda>block.
     getitem_key block (lit ''bodyTextSummary''))))"

text \<open>
  The name a contributor tag gives to \<open>authors\<close>: \<open>clean_text(tag['webTitle'])\<close>.
\<close>

definition author_of :: "json \<Rightarrow> pyerror + pystr" where
  "author_of tag = and_then (getitem_key tag (lit ''webTitle'')) clean_text_of"

definition is_contributor :: "json \<Rightarrow> bool" where
  "is_contributor tag = (getitem_key tag (lit ''type'') = Inr (JStr (lit ''contributor'')))"



text \<open>
  The query string that \<open>request_api\<close> is to produce: the parameters, last one first,
  each as name, \<open>=\<close>, value, \<open>&\<close> with every underscore (95) of the name turned into
  a hyphen (45), then the key.
\<close>

definition hyphenate :: "pystr \<Rightarrow> pystr" where
  "hyphenate key = map (\<lambda>c. if c = 95 then 45 else c) key"

definition query_string :: "pystr \<Rightarrow> (pystr \<times> pyval) list \<Rightarrow> pystr" where
  "query_string apiKey params =
     concat (map (\<lambda>(key, val). hyphenate key @ lit ''='' @ py_str val @ lit ''&'') (rev params))
     @ lit ''api-key='' @ apiKey"

section \<open>Example inputs\<close>

text \<open>
  An article with a mis-decoded apostrophe in its title and a mis-decoded \<open>e\<close> with
  acute accent in its text, a contributor tag and a keyword tag.
\<close>

definition example_entry :: json where
  "example_entry =
     JObj [(lit ''type'', JStr (lit ''article'')),
           (lit ''webTitle'', JStr [72, 226, 8364, 8482, 115]),
           (lit ''webPublicationDate'', JStr (lit ''2021-03-11T10:00:00Z'')),
           (lit ''tags'',
              JArr [JObj [(lit ''type'', JStr (lit ''contributor'')), (lit ''webTitle'', JStr (lit ''Ann''))],
                    JObj [(lit ''type'', JStr (lit ''keyword'')), (lit ''webTitle'', JStr (lit ''News''))]]),
           (lit ''blocks'', JObj [(lit ''body'', JArr [JObj [(lit ''bodyTextSummary'', JStr [195, 169, 97])]])])]"

text \<open>What the loop collects from it.\<close>

definition example_article :: article where
  "example_article =
     \<lparr>art_title = [72, 39, 115], art_date = JStr (lit ''2021-03-11T10:00:00Z''),
      art_authors = [lit ''Ann''], art_text = [101, 97]\<rparr>"

text \<open>An entry of another kind, with no field but its kind.\<close>

definition example_liveblog :: json where
  "example_liveblog = JObj [(lit ''type'', JStr (lit ''liveblog''))]"

text \<open>An article whose list of body blocks is empty.\<close>

definition example_no_block :: json where
  "example_no_block =
     JObj [(lit ''type'', JStr (lit ''article'')),
           (lit ''webTitle'', JStr (lit ''T'')),
           (lit ''webPublicationDate'', JStr (lit ''2021-03-12T09:00:00Z'')),
           (lit ''tags'', JArr []),
           (lit ''blocks'', JObj [(lit ''body'', JArr [])])]"

text \<open>A response with status 200 and the given result list.\<close>

definition ok_response :: "json list \<Rightarrow> response" where
  "ok_response results =
     \<lparr>status_code = 200,
      loads_text = Some (JObj [(lit ''response'', JObj [(lit ''results'', JArr results)])])\<rparr>"

text \<open>
  Upstreams: one short page whatever the URL; a page with a faulty record in the
  middle; fifty records on page 1 and thirty on the others; status 503 on page 3.
\<close>

definition short_upstream :: upstream where
  "short_upstream url = Inr (ok_response [example_entry, example_liveblog])"

definition faulty_upstream :: upstream where
  "faulty_upstream url = Inr (ok_response [example_entry, example_no_block, example_entry])"



text \<open>An upstream that answers with the URL it was asked for.\<close>

definition echo_upstream :: upstream where
  "echo_upstream url = Inr \<lparr>status_code = 200, loads_text = Some (JStr url)\<rparr>"

definition two_page_upstream :: upstream where
  "two_page_upstream url =
     Inr (ok_response (if contains (lit ''&page=1&'') url then replicate 50 example_entry
                       else replicate 30 example_entry))"

definition failing_upstream :: upstream where
  "failing_upstream url =
     Inr (if contains (lit ''&page=3&'') url then \<lparr>status_code = 503, loads_text = None\<rparr>
          else ok_response [example_entry, example_entry])"

text \<open>A configuration with pages of two records and at most five pages.\<close>

definition small_pages :: "upstream \<Rightarrow> config" where
  "small_pages get =
     \<lparr>requests_get = get, API_KEY = lit ''KEY'', max_limit = 5,
      from_date = lit ''2021-03-11'', to_date = lit ''2021-03-12'', page_limit = 2\<rparr>"

section \<open>Properties of replace and of the repair table\<close>

lemma contains_iff_sublist: "contains old s \<longleftrightarrow> sublist old s"
  by (induction s) (auto simp: sublist_Cons_right)

lemma contains_drop: "contains old (drop n s) \<Longrightarrow> contains old s"
  unfolding contains_iff_sublist
  using sublist_drop sublist_order.order_trans by blast

lemma clean_text_table: "clean_text text = apply_substs repair_table text"
  by (simp add: clean_text_def apply_substs_def repair_table_def)

text \<open>
  What the output starts with, up to the first replaced occurrence, was copied from the
  input.
\<close>

lemma prefix_str_replace:
  "prefix r (str_replace old new s) \<Longrightarrow> new = [c] \<Longrightarrow> c \<notin> set r \<Longrightarrow> old \<noteq> []
     \<Longrightarrow> prefix r s"
proof (induction old new s arbitrary: r rule: str_replace.induct)
  case (1 old new)
  then show ?case by simp
next
  case (2 old new x xs)
  show ?case
  proof (cases "prefix old (x # xs)")
    case True
    with 2 have "prefix r (c # str_replace old new (drop (length old) (x # xs)))"
      by simp
    with \<open>c \<notin> set r\<close> have "r = []"
      by (cases r) auto
    then show ?thesis by simp
  next
    case False
    with 2 have p: "prefix r (x # str_replace old new xs)"
      by simp
    show ?thesis
    proof (cases r)
      case Nil
      then show ?thesis by simp
    next
      case (Cons y ys)
      with p have "y = x" "prefix ys (str_replace old new xs)"
        by auto
      moreover from Cons \<open>c \<notin> set r\<close> have "c \<notin> set ys"
        by simp
      ultimately have "prefix ys xs"
        using "2.IH"(2) [of ys] False \<open>old \<noteq> []\<close> \<open>new = [c]\<close> by blast
      with Cons \<open>y = x\<close> show ?thesis by simp
    qed
  qed
qed

text \<open>A substitution by a character outside a pattern creates no occurrence of it.\<close>

lemma contains_str_replace:
  "contains p (str_replace old new s) \<Longrightarrow> new = [c] \<Longrightarrow> c \<notin> set p \<Longrightarrow> p \<noteq> []
     \<Longrightarrow> old \<noteq> [] \<Longrightarrow> contains p s"
proof (induction old new s rule: str_replace.induct)
  case (1 old new)
  then show ?case by simp
next
  case (2 old new x xs)
  show ?case
  proof (cases "prefix old (x # xs)")
    case True
    let ?R = "str_replace old new (drop (length old) (x # xs))"
    from 2 True have "contains p (c # ?R)"
      by simp
    moreover have "\<not> prefix p (c # ?R)"
      using \<open>c \<notin> set p\<close> \<open>p \<noteq> []\<close> by (cases p) auto
    ultimately have "contains p ?R"
      by simp
    then have "contains p (drop (length old) (x # xs))"
      using "2.IH"(1) True "2.prems" by blast
    then show ?thesis
      by (rule contains_drop)
  next
    case False
    with 2 have "contains p (x # str_replace old new xs)"
      by simp
    then consider "prefix p (x # str_replace old new xs)" | "contains p (str_replace old new xs)"
      by auto
    then show ?thesis
    proof cases
      case 1
      then have "prefix p (str_replace old new (x # xs))"
        using False \<open>old \<noteq> []\<close> by simp
      then have "prefix p (x # xs)"
        using \<open>new = [c]\<close> \<open>c \<notin> set p\<close> \<open>old \<noteq> []\<close> by (rule prefix_str_replace)
      then show ?thesis by simp
    next
      case 2
      then have "contains p xs"
        using "2.IH"(2) False "2.prems" by blast
      then show ?thesis by simp
    qed
  qed
qed

text \<open>After its own substitution a pattern occurs nowhere.\<close>

lemma not_contains_str_replace_self:
  "new = [c] \<Longrightarrow> c \<notin> set p \<Longrightarrow> p \<noteq> [] \<Longrightarrow> \<not> contains p (str_replace p new s)"
proof (induction p new s rule: str_replace.induct)
  case (1 old new)
  then show ?case by simp
next
  case (2 old new x xs)
  show ?case
  proof (cases "prefix old (x # xs)")
    case True
    let ?R = "str_replace old new (drop (length old) (x # xs))"
    have "\<not> prefix old (c # ?R)"
      using 2 by (cases old) auto
    moreover have "\<not> contains old ?R"
      using "2.IH"(1) True "2.prems" by blast
    ultimately show ?thesis
      using True \<open>old \<noteq> []\<close> \<open>new = [c]\<close> by simp
  next
    case False
    have "\<not> prefix old (x # str_replace old new xs)"
    proof
      assume "prefix old (x # str_replace old new xs)"
      then have "prefix old (str_replace old new (x # xs))"
        using False \<open>old \<noteq> []\<close> by simp
      then have "prefix old (x # xs)"
        using \<open>new = [c]\<close> \<open>c \<notin> set old\<close> \<open>old \<noteq> []\<close> by (rule prefix_str_replace)
      with False show False by simp
    qed
    moreover have "\<not> contains old (str_replace old new xs)"
      using "2.IH"(2) False "2.prems" by blast
    ultimately show ?thesis
      using False \<open>old \<noteq> []\<close> by simp
  qed
qed

lemma str_replace_match:
  "old \<noteq> [] \<Longrightarrow> str_replace old new (old @ t) = new @ str_replace old new t"
  by (cases old) simp_all

lemma str_replace_skip_free:
  "old \<noteq> [] \<Longrightarrow> hd old \<notin> set u \<Longrightarrow> str_replace old new (u @ t) = u @ str_replace old new t"
proof (induction u)
  case Nil
  then show ?case by simp
next
  case (Cons y u)
  then have "\<not> prefix old (y # u @ t)"
    by (cases old) auto
  with Cons show ?case by simp
qed

lemma str_replace_skip:
  assumes "old \<noteq> []" "p \<noteq> []" "hd old \<notin> set (tl p)" "\<not> prefix old p" "\<not> prefix p old"
  shows "str_replace old new (p @ t) = p @ str_replace old new t"
proof -
  obtain x u where p: "p = x # u"
    using assms(2) by (cases p) auto
  have "\<not> prefix old (p @ t)"
  proof
    assume "prefix old (p @ t)"
    moreover have "prefix p (p @ t)" by simp
    ultimately have "prefix old p \<or> prefix p old"
      by (rule prefix_same_cases)
    with assms show False by simp
  qed
  then have "str_replace old new (p @ t) = x # str_replace old new (u @ t)"
    using p assms(1) by simp
  also have "str_replace old new (u @ t) = u @ str_replace old new t"
    using assms(1,3) p by (simp add: str_replace_skip_free)
  finally show ?thesis using p by simp
qed

lemma str_replace_commute:
  assumes ne: "p \<noteq> []" "q \<noteq> []"
    and c: "c \<notin> set p" "c \<notin> set q"
    and d: "d \<notin> set p" "d \<notin> set q"
    and ov: "hd q \<notin> set (tl p)" "hd p \<notin> set (tl q)" "\<not> prefix p q" "\<not> prefix q p"
  shows "str_replace p [c] (str_replace q [d] s) = str_replace q [d] (str_replace p [c] s)"
proof (induction s rule: length_induct)
  case (1 s)
  show ?case
  proof (cases s)
    case Nil
    with ne show ?thesis by simp
  next
    case (Cons x xs)
    have np: "\<And>r. \<not> prefix p (d # r)" using d(1) ne(1) by (cases p) auto
    have nq: "\<And>r. \<not> prefix q (c # r)" using c(2) ne(2) by (cases q) auto
    consider (P) "prefix p s" | (Q) "prefix q s" | (N) "\<not> prefix p s" "\<not> prefix q s"
      by blast
    then show ?thesis
    proof cases
      case P
      then obtain t where s: "s = p @ t" by (auto simp: prefix_def)
      have lt: "length t < length s" using s ne(1) by simp
      have "str_replace p [c] s = c # str_replace p [c] t"
        using ne(1) s by (simp add: str_replace_match)
      then have l: "str_replace q [d] (str_replace p [c] s) = c # str_replace q [d] (str_replace p [c] t)"
        using nq ne(2) by simp
      have "str_replace q [d] s = p @ str_replace q [d] t"
        unfolding s using ne ov by (intro str_replace_skip) auto
      then have "str_replace p [c] (str_replace q [d] s) = c # str_replace p [c] (str_replace q [d] t)"
        using ne(1) by (simp add: str_replace_match)
      with l 1 lt show ?thesis by simp
    next
      case Q
      then obtain t where s: "s = q @ t" by (auto simp: prefix_def)
      have lt: "length t < length s" using s ne(2) by simp
      have "str_replace q [d] s = d # str_replace q [d] t"
        using ne(2) s by (simp add: str_replace_match)
      then have l: "str_replace p [c] (str_replace q [d] s) = d # str_replace p [c] (str_replace q [d] t)"
        using np ne(1) by simp
      have "str_replace p [c] s = q @ str_replace p [c] t"
        unfolding s using ne ov by (intro str_replace_skip) auto
      then have "str_replace q [d] (str_replace p [c] s) = d # str_replace q [d] (str_replace p [c] t)"
        using ne(2) by (simp add: str_replace_match)
      with l 1 lt show ?thesis by simp
    next
      case N
      have fp: "str_replace p [c] s = x # str_replace p [c] xs"
        using N Cons ne by simp
      have fq: "str_replace q [d] s = x # str_replace q [d] xs"
        using N Cons ne by simp
      have "\<not> prefix q (str_replace p [c] s)"
        using prefix_str_replace [of q p "[c]" s c] N c ne by blast
      then have a: "str_replace q [d] (str_replace p [c] s) = x # str_replace q [d] (str_replace p [c] xs)"
        using fp ne by simp
      have "\<not> prefix p (str_replace q [d] s)"
        using prefix_str_replace [of p q "[d]" s d] N d ne by blast
      then have b: "str_replace p [c] (str_replace q [d] s) = x # str_replace p [c] (str_replace q [d] xs)"
        using fq ne by simp
      from a b 1 Cons show ?thesis by simp
    qed
  qed
qed

lemma separate_commute:
  assumes "separate (p, r) (q, t)"
  shows "str_replace p r (str_replace q t s) = str_replace q t (str_replace p r s)"
proof -
  from assms obtain c d where "r = [c]" "t = [d]"
    unfolding separate_def by (cases r; cases t) auto
  with assms show ?thesis
    unfolding separate_def by (auto intro!: str_replace_commute)
qed

lemma repair_table_separate:
  "\<forall>a\<in>set repair_table. \<forall>b\<in>set repair_table. a = b \<or> separate a b"
  by (simp add: repair_table_def separate_def)

lemma repair_table_commute:
  assumes "a \<in> set repair_table" "b \<in> set repair_table"
  shows "(\<lambda>(old, new). str_replace old new) a \<circ> (\<lambda>(old, new). str_replace old new) b
       = (\<lambda>(old, new). str_replace old new) b \<circ> (\<lambda>(old, new). str_replace old new) a"
proof (cases "a = b")
  case True
  then show ?thesis by simp
next
  case False
  with assms repair_table_separate have "separate a b" by blast
  then show ?thesis
    by (cases a; cases b) (auto simp: fun_eq_iff intro: separate_commute)
qed

lemma apply_substs_no_pattern:
  assumes "p \<in> fst ` set tab" "p \<noteq> []"
    and "\<forall>(old, new)\<in>set tab. old \<noteq> [] \<and> (\<exists>c. new = [c] \<and> c \<notin> set p)"
  shows "\<not> contains p (apply_substs tab s)"
  using assms
proof (induction tab rule: rev_induct)
  case Nil
  then show ?case by simp
next
  case (snoc x tab)
  obtain old new where x: "x = (old, new)"
    by (cases x)
  have "(old, new) \<in> set (tab @ [x])"
    using x by simp
  with snoc.prems(3) have "old \<noteq> [] \<and> (\<exists>c. new = [c] \<and> c \<notin> set p)"
    by fast
  then obtain c where c: "old \<noteq> []" "new = [c]" "c \<notin> set p"
    by blast
  have step: "apply_substs (tab @ [x]) s = str_replace old new (apply_substs tab s)"
    by (simp add: apply_substs_def x)
  show ?case
  proof (cases "old = p")
    case True
    have "\<not> contains p (str_replace p new (apply_substs tab s))"
      using c(2,3) snoc.prems(2) by (rule not_contains_str_replace_self)
    with True show ?thesis
      unfolding step by simp
  next
    case False
    with snoc.prems(1) x have mem: "p \<in> fst ` set tab"
      by auto
    have "\<forall>(old, new)\<in>set tab. old \<noteq> [] \<and> (\<exists>c. new = [c] \<and> c \<notin> set p)"
      using snoc.prems(3) by fastforce
    with mem snoc.prems(2) have ih: "\<not> contains p (apply_substs tab s)"
      by (rule snoc.IH)
    have "\<not> contains p (str_replace old new (apply_substs tab s))"
    proof
      assume "contains p (str_replace old new (apply_substs tab s))"
      then have "contains p (apply_substs tab s)"
        using c(2,3) snoc.prems(2) c(1) by (rule contains_str_replace)
      with ih show False ..
    qed
    then show ?thesis
      unfolding step .
  qed
qed

lemma clean_text_no_pattern:
  assumes "p \<in> fst ` set repair_table"
  shows "\<not> contains p (clean_text text)"
proof -
  from assms have "p \<noteq> []"
    and "\<forall>(old, new)\<in>set repair_table. old \<noteq> [] \<and> (\<exists>c. new = [c] \<and> c \<notin> set p)"
    by (auto simp: repair_table_def)
  with assms show ?thesis
    unfolding clean_text_table by (rule apply_substs_no_pattern)
qed

section \<open>Where collected articles come from\<close>

lemma and_then_Inr_iff:
  "and_then m f = Inr y \<longleftrightarrow> (\<exists>x. m = Inr x \<and> f x = Inr y)"
  by (cases m) auto

lemma process_results_acc:
  "process_results es acc = (acc @ fst (process_results es []), snd (process_results es []))"
proof (induction es arbitrary: acc)
  case Nil
  then show ?case by simp
next
  case (Cons e es)
  show ?case
  proof (cases "getitem_key e (lit ''type'')")
    case (Inl err)
    then show ?thesis by simp
  next
    case (Inr ty)
    show ?thesis
    proof (cases "extract_entry e")
      case (Inl err)
      with Inr Cons.IH [of acc] show ?thesis by simp
    next
      case a: (Inr a)
      from Cons.IH [of "acc @ [a]"] Cons.IH [of "[a]"] Cons.IH [of acc] Inr a
      show ?thesis by simp
    qed
  qed
qed

lemma process_results_mem:
  "a \<in> set (fst (process_results es acc)) \<Longrightarrow>
     a \<in> set acc \<or>
     (\<exists>e\<in>set es. getitem_key e (lit ''type'') = Inr (JStr (lit ''article''))
        \<and> extract_entry e = Inr a)"
proof (induction es arbitrary: acc)
  case Nil
  then show ?case by simp
next
  case (Cons e es)
  show ?case
  proof (cases "getitem_key e (lit ''type'')")
    case (Inl err)
    with Cons.prems show ?thesis by simp
  next
    case (Inr ty)
    show ?thesis
    proof (cases "ty = JStr (lit ''article'')")
      case False
      with Inr Cons.prems have "a \<in> set (fst (process_results es acc))" by simp
      from Cons.IH [OF this] show ?thesis by auto
    next
      case True
      show ?thesis
      proof (cases "extract_entry e")
        case (Inl err)
        with Inr True Cons.prems show ?thesis by simp
      next
        case b: (Inr b)
        with Inr True Cons.prems have "a \<in> set (fst (process_results es (acc @ [b])))"
          by simp
        from Cons.IH [OF this] Inr True b show ?thesis by auto
      qed
    qed
  qed
qed

lemma page_body_fetched: "fetched (fst (page_body cfg page st)) = fetched st @ [page]"
  by (simp add: page_body_def Let_def split: sum.splits prod.splits option.splits)

lemma page_body_mem:
  assumes "a \<in> set (all_articles (fst (page_body cfg page st)))"
  shows "a \<in> set (all_articles st) \<or>
     (\<exists>e\<in>set (page_entries cfg page). getitem_key e (lit ''type'') = Inr (JStr (lit ''article''))
        \<and> extract_entry e = Inr a)"
proof (cases "fetch_page cfg page")
  case (Inl err)
  with assms show ?thesis by (simp add: page_body_def)
next
  case (Inr resp)
  show ?thesis
  proof (cases "status_code resp = 200")
    case False
    with Inr assms show ?thesis by (simp add: page_body_def)
  next
    case True
    show ?thesis
    proof (cases "parse_results resp")
      case (Inl err)
      with Inr True assms show ?thesis by (simp add: page_body_def)
    next
      case res: (Inr results)
      show ?thesis
      proof (cases "py_iter results")
        case (Inl err)
        with Inr True res assms show ?thesis by (simp add: page_body_def)
      next
        case es: (Inr entries)
        have pe: "page_entries cfg page = entries"
          using Inr True res es by (simp add: page_entries_def)
        have "all_articles (fst (page_body cfg page st))
            = fst (process_results entries (all_articles st))"
          using Inr True res es
          by (simp add: page_body_def Let_def split: prod.splits option.splits sum.splits)
        with assms have "a \<in> set (fst (process_results entries (all_articles st)))"
          by simp
        from process_results_mem [OF this] pe show ?thesis by simp
      qed
    qed
  qed
qed

lemma collect_pages_mem:
  "a \<in> set (all_articles (collect_pages cfg pages st)) \<Longrightarrow>
     a \<in> set (all_articles st) \<or>
     (\<exists>page\<in>set pages. \<exists>e\<in>set (page_entries cfg page).
        getitem_key e (lit ''type'') = Inr (JStr (lit ''article'')) \<and> extract_entry e = Inr a)"
proof (induction pages arbitrary: st)
  case Nil
  then show ?case by simp
next
  case (Cons page pages)
  obtain st' r where pb: "page_body cfg page st = (st', r)"
    by (cases "page_body cfg page st")
  have "a \<in> set (all_articles st') \<or>
     (\<exists>page\<in>set pages. \<exists>e\<in>set (page_entries cfg page).
        getitem_key e (lit ''type'') = Inr (JStr (lit ''article'')) \<and> extract_entry e = Inr a)"
  proof (cases "r = Inr Continue")
    case True
    with pb Cons.prems have "a \<in> set (all_articles (collect_pages cfg pages st'))"
      by simp
    then show ?thesis by (rule Cons.IH)
  next
    case False
    with pb Cons.prems have "a \<in> set (all_articles st')"
      by (cases r) (auto split: ctl.splits)
    then show ?thesis ..
  qed
  moreover have "a \<in> set (all_articles st') \<Longrightarrow> a \<in> set (all_articles st) \<or>
     (\<exists>e\<in>set (page_entries cfg page). getitem_key e (lit ''type'') = Inr (JStr (lit ''article''))
        \<and> extract_entry e = Inr a)"
    using page_body_mem [of a cfg page st] pb by simp
  ultimately show ?case by auto
qed

lemma collect_mem:
  assumes "a \<in> set (all_articles (collect cfg))"
  shows "\<exists>page\<in>set [1..<max_limit cfg + 1]. \<exists>e\<in>set (page_entries cfg page).
        getitem_key e (lit ''type'') = Inr (JStr (lit ''article'')) \<and> extract_entry e = Inr a"
proof -
  from assms have "a \<in> set (all_articles (collect_pages cfg [1..<max_limit cfg + 1] init_state))"
    by (simp only: collect_def init_state_def)
  then have "a \<in> set (all_articles init_state) \<or>
     (\<exists>page\<in>set [1..<max_limit cfg + 1]. \<exists>e\<in>set (page_entries cfg page).
        getitem_key e (lit ''type'') = Inr (JStr (lit ''article'')) \<and> extract_entry e = Inr a)"
    by (rule collect_pages_mem)
  moreover have "a \<notin> set (all_articles init_state)"
    by (simp add: init_state_def)
  ultimately show ?thesis by blast
qed

lemma clean_text_of_Inr_iff:
  "clean_text_of v = Inr t \<longleftrightarrow> (\<exists>s. v = JStr s \<and> t = clean_text s)"
  by (cases v) auto

lemma extract_entry_Inr:
  assumes "extract_entry e = Inr a"
  shows "\<exists>wt tg tags blocks body block summary.
           getitem_key e (lit ''webTitle'') = Inr (JStr wt) \<and> art_title a = clean_text wt
         \<and> getitem_key e (lit ''webPublicationDate'') = Inr (art_date a)
         \<and> getitem_key e (lit ''tags'') = Inr tg \<and> py_iter tg = Inr tags
         \<and> collect_authors tags [] = Inr (art_authors a)
         \<and> getitem_key e (lit ''blocks'') = Inr blocks
         \<and> getitem_key blocks (lit ''body'') = Inr body
         \<and> getitem_0 body = Inr block
         \<and> getitem_key block (lit ''bodyTextSummary'') = Inr (JStr summary)
         \<and> art_text a = clean_text summary"
  using assms unfolding extract_entry_def and_then_Inr_iff clean_text_of_Inr_iff
  by fastforce

lemma collect_authors_Inr:
  "collect_authors tags acc = Inr out \<Longrightarrow>
     map Inr out = map Inr acc @ map author_of (filter is_contributor tags)"
proof (induction tags arbitrary: acc)
  case Nil
  then show ?case by simp
next
  case (Cons tag tags)
  show ?case
  proof (cases "is_contributor tag")
    case False
    with Cons.prems have "collect_authors tags acc = Inr out"
      by (auto simp: is_contributor_def split: sum.splits if_splits)
    from Cons.IH [OF this] False show ?thesis by simp
  next
    case True
    with Cons.prems obtain name where
      n: "author_of tag = Inr name" "collect_authors tags (acc @ [name]) = Inr out"
      by (auto simp: is_contributor_def author_of_def split: sum.splits)
    from Cons.IH [OF n(2)] n(1) True show ?thesis by simp
  qed
qed

lemma process_results_skip:
  "other_kind entry \<Longrightarrow>
     process_results (before @ entry # after) acc = process_results (before @ after) acc"
proof (induction before arbitrary: acc)
  case Nil
  then show ?case
    by (auto simp: other_kind_def split: sum.splits)
next
  case (Cons e es)
  then show ?case
    by (simp split: sum.splits)
qed

section \<open>One page of the loop\<close>

lemma page_body_results:
  assumes "fetch_page cfg page = Inr resp" "status_code resp = 200"
    and "parse_results resp = Inr (JArr results)"
  shows "page_body cfg page st =
     (\<lparr>all_articles = fst (process_results results (all_articles st)),
       fetched = fetched st @ [page]\<rparr>,
      (case snd (process_results results (all_articles st)) of
         Some err \<Rightarrow> Inl err
       | None \<Rightarrow> Inr (if length results < page_limit cfg then Break else Continue)))"
  using assms
  by (cases "process_results results (all_articles st)")
     (simp add: page_body_def Let_def split: option.splits)

lemma collect_pages_not_200:
  assumes "fetch_page cfg page = Inr resp" "status_code resp \<noteq> 200"
  shows "collect_pages cfg (page # pages) st =
     \<lparr>all_articles = all_articles st, fetched = fetched st @ [page]\<rparr>"
  using assms by (simp add: page_body_def Let_def)

lemma collect_pages_short:
  assumes "fetch_page cfg page = Inr resp" "status_code resp = 200"
    and "parse_results resp = Inr (JArr results)"
    and "length results < page_limit cfg"
  shows "collect_pages cfg (page # pages) st =
     \<lparr>all_articles = fst (process_results results (all_articles st)),
      fetched = fetched st @ [page]\<rparr>"
  using assms(4) by (simp add: page_body_results [OF assms(1-3)] split: option.splits)

lemma collect_pages_fault:
  assumes "fetch_page cfg page = Inr resp" "status_code resp = 200"
    and "parse_results resp = Inr (JArr results)"
    and "snd (process_results results (all_articles st)) = Some err"
  shows "collect_pages cfg (page # pages) st =
     \<lparr>all_articles = fst (process_results results (all_articles st)),
      fetched = fetched st @ [page]\<rparr>"
  using assms(4) by (simp add: page_body_results [OF assms(1-3)])

lemma collect_pages_full:
  assumes "fetch_page cfg page = Inr resp" "status_code resp = 200"
    and "parse_results resp = Inr (JArr results)"
    and "snd (process_results results (all_articles st)) = None"
    and "page_limit cfg \<le> length results"
  shows "collect_pages cfg (page # pages) st =
     collect_pages cfg pages
       \<lparr>all_articles = fst (process_results results (all_articles st)),
        fetched = fetched st @ [page]\<rparr>"
  using assms(4,5) by (simp add: page_body_results [OF assms(1-3)])

lemma collect_pages_fetched_prefix:
  "\<exists>k. fetched (collect_pages cfg pages st) = fetched st @ take k pages"
proof (induction pages arbitrary: st)
  case Nil
  then show ?case by simp
next
  case (Cons page pages)
  obtain st' r where pb: "page_body cfg page st = (st', r)"
    by (cases "page_body cfg page st")
  then have f: "fetched st' = fetched st @ [page]"
    using page_body_fetched [of cfg page st] by simp
  show ?case
  proof (cases "r = Inr Continue")
    case True
    from Cons.IH [of st'] obtain k where
      "fetched (collect_pages cfg pages st') = fetched st' @ take k pages" ..
    with pb True f have
      "fetched (collect_pages cfg (page # pages) st) = fetched st @ take (Suc k) (page # pages)"
      by simp
    then show ?thesis ..
  next
    case False
    with pb have "collect_pages cfg (page # pages) st = st'"
      by (cases r) (auto split: ctl.splits)
    with f have
      "fetched (collect_pages cfg (page # pages) st) = fetched st @ take (Suc 0) (page # pages)"
      by simp
    then show ?thesis ..
  qed
qed

text \<open>
  A page that was fetched was reached: the loop ran the pages before it, and went on
  from the state they left.
\<close>

lemma collect_pages_reach:
  assumes "page \<in> set (fetched (collect_pages cfg (pre @ page # post) st))"
    and "page \<notin> set pre" "page \<notin> set (fetched st)"
  shows "collect_pages cfg (pre @ page # post) st
           = collect_pages cfg (page # post) (collect_pages cfg pre st)
       \<and> fetched (collect_pages cfg pre st) = fetched st @ pre"
  using assms
proof (induction pre arbitrary: st)
  case Nil
  then show ?case by simp
next
  case (Cons q pre)
  obtain st' r where pb: "page_body cfg q st = (st', r)"
    by (cases "page_body cfg q st")
  then have f: "fetched st' = fetched st @ [q]"
    using page_body_fetched [of cfg q st] by simp
  show ?case
  proof (cases "r = Inr Continue")
    case True
    with pb have step: "\<And>ps. collect_pages cfg (q # ps) st = collect_pages cfg ps st'"
      by simp
    have "page \<in> set (fetched (collect_pages cfg (pre @ page # post) st'))"
      using Cons.prems(1) step [of "pre @ page # post"] by simp
    moreover have "page \<notin> set pre" "page \<notin> set (fetched st')"
      using Cons.prems(2,3) f by auto
    ultimately have "collect_pages cfg (pre @ page # post) st'
           = collect_pages cfg (page # post) (collect_pages cfg pre st')
       \<and> fetched (collect_pages cfg pre st') = fetched st' @ pre"
      by (rule Cons.IH)
    then show ?thesis
      using step [of "pre @ page # post"] step [of pre] f by simp
  next
    case False
    with pb have "collect_pages cfg ((q # pre) @ page # post) st = st'"
      by (cases r) (auto split: ctl.splits)
    with Cons.prems(1) f have "page \<in> set (fetched st @ [q])"
      by simp
    with Cons.prems(2,3) show ?thesis by simp
  qed
qed

lemma collect_fetched_bounds:
  assumes "page \<in> set (fetched (collect cfg))"
  shows "1 \<le> page \<and> page \<le> max_limit cfg"
proof -
  let ?pages = "[1..<max_limit cfg + 1]"
  obtain k where "fetched (collect_pages cfg ?pages init_state) = fetched init_state @ take k ?pages"
    using collect_pages_fetched_prefix by blast
  then have "set (fetched (collect cfg)) \<subseteq> set ?pages"
    using set_take_subset [of k ?pages] by (simp add: collect_def init_state_def)
  with assms have "page \<in> set ?pages" by blast
  then show ?thesis by auto
qed

lemma collect_reach:
  assumes "page \<in> set (fetched (collect cfg))"
  shows "collect cfg = collect_pages cfg (page # [Suc page..<max_limit cfg + 1])
                          (collect_pages cfg [1..<page] init_state)
       \<and> fetched (collect_pages cfg [1..<page] init_state) = [1..<page]"
proof -
  let ?pages = "[1..<max_limit cfg + 1]"
  have bounds: "1 \<le> page" "page < max_limit cfg + 1"
    using collect_fetched_bounds [OF assms] by simp_all
  have "?pages = [1..<page] @ [page..<max_limit cfg + 1]"
    using upt_add_eq_append [of 1 page "max_limit cfg + 1 - page"] bounds by simp
  moreover have "[page..<max_limit cfg + 1] = page # [Suc page..<max_limit cfg + 1]"
    using bounds by (simp add: upt_conv_Cons)
  ultimately have split: "?pages = [1..<page] @ page # [Suc page..<max_limit cfg + 1]"
    by simp
  have "page \<in> set (fetched (collect_pages cfg ([1..<page] @ page # [Suc page..<max_limit cfg + 1]) init_state))"
    using assms unfolding collect_def init_state_def split [symmetric] .
  moreover have "page \<notin> set [1..<page]" "page \<notin> set (fetched init_state)"
    by (simp_all add: init_state_def)
  ultimately have "collect_pages cfg ([1..<page] @ page # [Suc page..<max_limit cfg + 1]) init_state
           = collect_pages cfg (page # [Suc page..<max_limit cfg + 1]) (collect_pages cfg [1..<page] init_state)
       \<and> fetched (collect_pages cfg [1..<page] init_state) = fetched init_state @ [1..<page]"
    by (rule collect_pages_reach)
  then show ?thesis
    unfolding collect_def init_state_def split [symmetric] by simp
qed

section \<open>Records of the data model\<close>

lemma has_str_iff: "has_str v k \<longleftrightarrow> (\<exists>s. getitem_key v k = Inr (JStr s))"
  by (auto simp: has_str_def split: sum.splits json.splits)

lemma has_key_iff: "has_key v k \<longleftrightarrow> (\<exists>x. getitem_key v k = Inr x)"
  by (auto simp: has_key_def split: sum.splits)

lemma tag_records_authors:
  "list_all tag_record tags \<Longrightarrow> \<exists>out. collect_authors tags acc = Inr out"
proof (induction tags arbitrary: acc)
  case Nil
  then show ?case by simp
next
  case (Cons tag tags)
  from Cons.prems have t: "tag_record tag" and rest: "list_all tag_record tags"
    by simp_all
  from t obtain ty where ty: "getitem_key tag (lit ''type'') = Inr ty"
    by (auto simp: tag_record_def has_key_iff)
  show ?case
  proof (cases "ty = JStr (lit ''contributor'')")
    case False
    with ty Cons.IH [OF rest] show ?thesis by simp
  next
    case True
    with t ty obtain n where "getitem_key tag (lit ''webTitle'') = Inr (JStr n)"
      by (auto simp: tag_record_def has_str_iff)
    with ty True Cons.IH [OF rest] show ?thesis by simp
  qed
qed

lemma article_record_extract:
  assumes "article_record e"
  shows "\<exists>a. extract_entry e = Inr a"
proof -
  from assms obtain wt d where
    t: "getitem_key e (lit ''webTitle'') = Inr (JStr wt)"
    and d: "getitem_key e (lit ''webPublicationDate'') = Inr d"
    by (auto simp: article_record_def has_str_iff has_key_iff)
  from assms obtain tags where
    tg: "getitem_key e (lit ''tags'') = Inr (JArr tags)" "list_all tag_record tags"
    by (auto simp: article_record_def split: sum.splits json.splits)
  from assms obtain blocks block others where
    b: "getitem_key e (lit ''blocks'') = Inr blocks"
      "getitem_key blocks (lit ''body'') = Inr (JArr (block # others))"
      "has_str block (lit ''bodyTextSummary'')"
    by (auto simp: article_record_def and_then_Inr_iff split: sum.splits json.splits list.splits)
  from b(3) obtain s where s: "getitem_key block (lit ''bodyTextSummary'') = Inr (JStr s)"
    by (auto simp: has_str_iff)
  from tg(2) obtain out where "collect_authors tags [] = Inr out"
    using tag_records_authors by blast
  with t d tg(1) b(1,2) s show ?thesis
    by (simp add: extract_entry_def)
qed

lemma article_records_processed:
  "list_all article_record es \<Longrightarrow>
     \<exists>arts. process_results es acc = (acc @ arts, None) \<and> length arts = length es"
proof (induction es arbitrary: acc)
  case Nil
  then show ?case by simp
next
  case (Cons e es)
  then have ty: "getitem_key e (lit ''type'') = Inr (JStr (lit ''article''))"
    by (simp add: article_record_def)
  from Cons.prems obtain a where a: "extract_entry e = Inr a"
    using article_record_extract by auto
  from Cons.prems have "list_all article_record es" by simp
  from Cons.IH [OF this, of "acc @ [a]"] obtain arts where
    "process_results es (acc @ [a]) = ((acc @ [a]) @ arts, None)" "length arts = length es"
    by blast
  with ty a have "process_results (e # es) acc = (acc @ (a # arts), None)
      \<and> length (a # arts) = length (e # es)"
    by simp
  then show ?case by blast
qed



section \<open>The query string\<close>

lemma str_replace_char:
  "str_replace [a] [b] s = map (\<lambda>c. if c = a then b else c) s"
  by (induction s) auto

lemma build_queries_eq:
  "build_queries params queries =
     concat (map (\<lambda>(key, val). hyphenate key @ lit ''='' @ py_str val @ lit ''&'') (rev params))
     @ queries"
proof (induction params arbitrary: queries)
  case Nil
  then show ?case by simp
next
  case (Cons kv params)
  obtain key val where kv: "kv = (key, val)" by (cases kv)
  have "str_replace (lit ''_'') (lit ''-'') key = hyphenate key"
    by (simp add: lit_def hyphenate_def str_replace_char)
  with Cons.IH kv show ?case by simp
qed

lemma contains_appendI: 
  assumes "contains p s"
  shows "contains p (xs @ s @ ys)"
proof -
  from assms obtain ps ss where "s = ps @ p @ ss"
    unfolding contains_iff_sublist sublist_def by blast
  then have "xs @ s @ ys = (xs @ ps) @ p @ (ss @ ys)"
    by simp
  then show ?thesis
    unfolding contains_iff_sublist sublist_def by blast
qed

lemma contains_concat_map:
  assumes "x \<in> set xs" "contains p (f x)"
  shows "contains p (concat (map f xs))"
proof -
  from assms(1) obtain ys zs where "xs = ys @ x # zs"
    by (auto dest: split_list)
  then have "concat (map f xs) = concat (map f ys) @ f x @ concat (map f zs)"
    by simp
  with contains_appendI [OF assms(2)] show ?thesis
    by simp
qed

lemma query_underscores:
  "filter (\<lambda>c. c = 95) (query_string apiKey params)
     = concat (map (\<lambda>(key, val). filter (\<lambda>c. c = 95) (py_str val)) (rev params))
       @ filter (\<lambda>c. c = 95) apiKey"
proof -
  have h: "filter (\<lambda>c. c = 95) (hyphenate key) = []" for key
    by (induction key) (simp_all add: hyphenate_def)
  have "filter (\<lambda>c. c = 95)
          (concat (map (\<lambda>(key, val). hyphenate key @ lit ''='' @ py_str val @ lit ''&'') xs))
      = concat (map (\<lambda>(key, val). filter (\<lambda>c. c = 95) (py_str val)) xs)" for xs
    by (induction xs) (auto simp: h lit_def)
  then show ?thesis
    by (simp add: query_string_def lit_def)
qed

lemma request_url_eq:
  "request_url endpoint apiKey params
     = API_SITE @ endpoint @ lit ''?'' @ query_string apiKey params"
  by (simp add: request_url_def query_string_def build_queries_eq)

section \<open>The example inputs, evaluated\<close>

lemma example_entry_extract: "extract_entry example_entry = Inr example_article"
  by (simp add: example_entry_def example_article_def extract_entry_def lit_def clean_text_def)

lemma example_entry_type: "getitem_key example_entry (lit ''type'') = Inr (JStr (lit ''article''))"
  by (simp add: example_entry_def lit_def)

lemma parse_ok_response: "parse_results (ok_response results) = Inr (JArr results)"
  by (simp add: parse_results_def ok_response_def lit_def)

lemma status_ok_response: "status_code (ok_response results) = 200"
  by (simp add: ok_response_def)

lemma fetch_short: "fetch_page (notebook short_upstream key) page = Inr (ok_response [example_entry, example_liveblog])"
  by (simp add: fetch_page_def request_api_def notebook_def short_upstream_def)

lemma example_liveblog_other: "other_kind example_liveblog"
  by (simp add: other_kind_def example_liveblog_def lit_def)

lemma short_run:
  "collect (notebook short_upstream key) = \<lparr>all_articles = [example_article], fetched = [1]\<rparr>"
proof -
  have "[1..<max_limit (notebook short_upstream key) + 1] = 1 # [2..<21]"
    by (simp add: notebook_def upt_rec)
  moreover have "process_results [example_entry, example_liveblog] [] = ([example_article], None)"
    using example_liveblog_other
    by (simp add: example_entry_extract example_entry_type other_kind_def split: sum.splits)
  ultimately show ?thesis
    unfolding collect_def
    using collect_pages_short [OF fetch_short status_ok_response parse_ok_response,
        where pages = "[2..<21]" and st = "\<lparr>all_articles = [], fetched = []\<rparr>"]
    by (simp add: notebook_def)
qed

lemma fetch_two_1: "fetch_page (notebook two_page_upstream (lit ''KEY'')) 1 = Inr (ok_response (replicate 50 example_entry))"
  by (simp add: fetch_page_def request_api_def notebook_def two_page_upstream_def request_url_def
       page_params_def API_SITE_def lit_def)

lemma fetch_two_2: "fetch_page (notebook two_page_upstream (lit ''KEY'')) 2 = Inr (ok_response (replicate 30 example_entry))"
  by (simp add: fetch_page_def request_api_def notebook_def two_page_upstream_def request_url_def
       page_params_def API_SITE_def lit_def)

lemma first_page_fetched:
  assumes "1 \<le> max_limit cfg"
  shows "1 \<in> set (fetched (collect cfg))"
proof -
  have "(1::nat) < max_limit cfg + 1"
    using assms by simp
  then have "[1..<max_limit cfg + 1] = 1 # [Suc 1..<max_limit cfg + 1]"
    by (rule upt_conv_Cons)
  then have pages: "[1..<max_limit cfg + 1] = 1 # [2..<max_limit cfg + 1]"
    by (simp add: numeral_2_eq_2)
  obtain st' r where pb: "page_body cfg 1 init_state = (st', r)"
    by (cases "page_body cfg 1 init_state")
  then have f: "fetched st' = [1]"
    using page_body_fetched [of cfg 1 init_state] by (simp add: init_state_def)
  obtain k where "fetched (collect_pages cfg [2..<max_limit cfg + 1] st')
      = fetched st' @ take k [2..<max_limit cfg + 1]"
    using collect_pages_fetched_prefix by blast
  with f have "1 \<in> set (fetched (collect_pages cfg [2..<max_limit cfg + 1] st'))"
    by simp
  moreover have "collect cfg = st' \<or> collect cfg = collect_pages cfg [2..<max_limit cfg + 1] st'"
    unfolding collect_def pages using pb
    by (cases r) (auto simp: init_state_def split: ctl.splits)
  ultimately show ?thesis
    using f by auto
qed

lemma example_entry_record: "article_record example_entry"
  by (simp add: article_record_def example_entry_def has_str_def has_key_def tag_record_def lit_def)

lemma example_no_block_fault: "extract_entry example_no_block = Inl IndexError"
  by (simp add: extract_entry_def example_no_block_def lit_def)

lemma example_no_block_type:
  "getitem_key example_no_block (lit ''type'') = Inr (JStr (lit ''article''))"
  by (simp add: example_no_block_def lit_def)

lemma fetch_faulty:
  "fetch_page (notebook faulty_upstream key) page
     = Inr (ok_response ([example_entry] @ example_no_block # [example_entry]))"
  by (simp add: fetch_page_def request_api_def notebook_def faulty_upstream_def)

lemma fetch_failing_1:
  "fetch_page (small_pages failing_upstream) 1 = Inr (ok_response [example_entry, example_entry])"
  by (simp add: fetch_page_def request_api_def small_pages_def failing_upstream_def request_url_def
       page_params_def API_SITE_def lit_def)

lemma fetch_failing_2:
  "fetch_page (small_pages failing_upstream) 2 = Inr (ok_response [example_entry, example_entry])"
  by (simp add: fetch_page_def request_api_def small_pages_def failing_upstream_def request_url_def
       page_params_def API_SITE_def lit_def)

lemma fetch_failing_3:
  "fetch_page (small_pages failing_upstream) 3 = Inr \<lparr>status_code = 503, loads_text = None\<rparr>"
  by (simp add: fetch_page_def request_api_def small_pages_def failing_upstream_def request_url_def
       page_params_def API_SITE_def lit_def)

lemma example_entries_processed:
  "process_results [example_entry, example_entry] [] = ([example_article, example_article], None)"
  by (simp add: example_entry_type example_entry_extract)




section \<open>The claims\<close>

text \<open>
  C1. The upstream answers 200 on every page, with a result list of 50 article records on
  page 1 and of 30 on page 2; the page size is 50 and the ceiling 20. Then the loop
  fetches pages 1 and 2 and no other, and the accumulator holds 80 articles. The
  records are records of the data model (\<open>article_record\<close>): each has a title, a
  date, its tags and a body block.
\<close>

theorem two_pages_scenario:
  assumes "max_limit cfg = 20" "page_limit cfg = 50"
    and "fetch_page cfg 1 = Inr resp1" "status_code resp1 = 200"
    and "parse_results resp1 = Inr (JArr results1)"
    and "length results1 = 50" "list_all article_record results1"
    and "fetch_page cfg 2 = Inr resp2" "status_code resp2 = 200"
    and "parse_results resp2 = Inr (JArr results2)"
    and "length results2 = 30" "list_all article_record results2"
  shows "fetched (collect cfg) = [1, 2] \<and> length (all_articles (collect cfg)) = 80"
proof -
  obtain arts1 where a1: "process_results results1 [] = (arts1, None)" "length arts1 = 50"
    using article_records_processed [OF assms(7), of "[]"] assms(6) by auto
  obtain arts2 where a2: "process_results results2 arts1 = (arts1 @ arts2, None)" "length arts2 = 30"
    using article_records_processed [OF assms(12), of arts1] assms(11) by auto
  have pages: "[1..<max_limit cfg + 1] = 1 # 2 # [3..<21]"
    using assms(1) by (simp add: upt_rec)
  have "collect cfg = collect_pages cfg (2 # [3..<21]) \<lparr>all_articles = arts1, fetched = [1]\<rparr>"
    unfolding collect_def pages
    using collect_pages_full [OF assms(3,4,5), of "\<lparr>all_articles = [], fetched = []\<rparr>" "2 # [3..<21]"]
      a1 assms(2,6) by simp
  also have "\<dots> = \<lparr>all_articles = arts1 @ arts2, fetched = [1, 2]\<rparr>"
    using collect_pages_short [OF assms(8,9,10), of "[3..<21]" "\<lparr>all_articles = arts1, fetched = [1]\<rparr>"]
      a2 assms(2,11) by simp
  finally show ?thesis
    using a1(2) a2(2) by simp
qed

theorem two_pages_scenario_witness:
  "max_limit (notebook two_page_upstream (lit ''KEY'')) = 20
   \<and> page_limit (notebook two_page_upstream (lit ''KEY'')) = 50
   \<and> fetch_page (notebook two_page_upstream (lit ''KEY'')) 1
       = Inr (ok_response (replicate 50 example_entry))
   \<and> fetch_page (notebook two_page_upstream (lit ''KEY'')) 2
       = Inr (ok_response (replicate 30 example_entry))
   \<and> list_all article_record (replicate 50 example_entry)
   \<and> list_all article_record (replicate 30 example_entry)
   \<and> fetched (collect (notebook two_page_upstream (lit ''KEY''))) = [1, 2]
   \<and> length (all_articles (collect (notebook two_page_upstream (lit ''KEY'')))) = 80"
proof -
  let ?cfg = "notebook two_page_upstream (lit ''KEY'')"
  have c: "max_limit ?cfg = 20" "page_limit ?cfg = 50"
    by (simp_all add: notebook_def)
  have r: "list_all article_record (replicate 50 example_entry)"
    "list_all article_record (replicate 30 example_entry)"
    by (simp_all add: list_all_iff example_entry_record)
  have l: "length (replicate 50 example_entry) = 50" "length (replicate 30 example_entry) = 30"
    by simp_all
  from two_pages_scenario [OF c fetch_two_1 status_ok_response parse_ok_response l(1) r(1)
      fetch_two_2 status_ok_response parse_ok_response l(2) r(2)]
    c r fetch_two_1 fetch_two_2
  show ?thesis by blast
qed

text \<open>
  C2. Page \<open>n\<close>, at most the ceiling, answers with a status other than 200, and every
  page before it answered 200 with a result list of at least the page size that was
  processed without an exception. Then the loop ends (the function returns a state,
  no exception is left), it has fetched pages 1 to \<open>n\<close>, and the accumulator is exactly
  what pages 1 to \<open>n - 1\<close> produced, in order: nothing comes from page \<open>n\<close>.
\<close>

theorem stops_on_bad_status:
  assumes "1 \<le> n" "n \<le> max_limit cfg"
    and "\<forall>page\<in>set [1..<n]. \<exists>resp. fetch_page cfg page = Inr resp \<and> status_code resp = 200
           \<and> parse_results resp = Inr (JArr (results page))
           \<and> page_limit cfg \<le> length (results page)
           \<and> snd (process_results (results page) []) = None"
    and "fetch_page cfg n = Inr resp_n" "status_code resp_n \<noteq> 200"
  shows "collect cfg =
     \<lparr>all_articles = concat (map (\<lambda>page. fst (process_results (results page) [])) [1..<n]),
      fetched = [1..<n + 1]\<rparr>"
proof -
  have run: "collect_pages cfg (pre @ rest) st =
       collect_pages cfg rest
         \<lparr>all_articles = all_articles st
             @ concat (map (\<lambda>page. fst (process_results (results page) [])) pre),
          fetched = fetched st @ pre\<rparr>"
    if "set pre \<subseteq> set [1..<n]" for pre rest st
    using that
  proof (induction pre arbitrary: st)
    case Nil
    show ?case by (cases st) simp
  next
    case (Cons page pre)
    then have "page \<in> set [1..<n]" by simp
    with assms(3) obtain resp where r: "fetch_page cfg page = Inr resp" "status_code resp = 200"
      "parse_results resp = Inr (JArr (results page))"
      "page_limit cfg \<le> length (results page)"
      "snd (process_results (results page) []) = None"
      by blast
    have pr: "process_results (results page) (all_articles st) =
        (all_articles st @ fst (process_results (results page) []), None)"
      using process_results_acc [of "results page" "all_articles st"] r(5) by simp
    have "collect_pages cfg ((page # pre) @ rest) st =
        collect_pages cfg (pre @ rest)
          \<lparr>all_articles = all_articles st @ fst (process_results (results page) []),
           fetched = fetched st @ [page]\<rparr>"
      using collect_pages_full [OF r(1,2,3), of st "pre @ rest"] pr r(4) by simp
    also have "\<dots> = collect_pages cfg rest
         \<lparr>all_articles = all_articles st
             @ concat (map (\<lambda>page. fst (process_results (results page) [])) (page # pre)),
          fetched = fetched st @ page # pre\<rparr>"
      using Cons.prems by (subst Cons.IH) simp_all
    finally show ?case .
  qed
  have "[1..<max_limit cfg + 1] = [1..<n] @ [n..<max_limit cfg + 1]"
    using upt_add_eq_append [of 1 n "max_limit cfg + 1 - n"] assms(1,2) by simp
  moreover have "[n..<max_limit cfg + 1] = n # [Suc n..<max_limit cfg + 1]"
    using assms(2) by (simp add: upt_conv_Cons)
  ultimately have pages: "[1..<max_limit cfg + 1] = [1..<n] @ n # [Suc n..<max_limit cfg + 1]"
    by simp
  have "[1..<n + 1] = [1..<n] @ [n]"
    using assms(1) by simp
  then show ?thesis
    unfolding collect_def pages
    using run [of "[1..<n]" "n # [Suc n..<max_limit cfg + 1]" "\<lparr>all_articles = [], fetched = []\<rparr>"]
      collect_pages_not_200 [OF assms(4,5)]
    by simp
qed

theorem stops_on_bad_status_witness:
  "(1::nat) \<le> 3 \<and> 3 \<le> max_limit (small_pages failing_upstream)
   \<and> fetch_page (small_pages failing_upstream) 3 = Inr \<lparr>status_code = 503, loads_text = None\<rparr>
   \<and> collect (small_pages failing_upstream) =
       \<lparr>all_articles = [example_article, example_article, example_article, example_article],
        fetched = [1, 2, 3]\<rparr>"
proof -
  let ?cfg = "small_pages failing_upstream"
  let ?results = "\<lambda>page::nat. [example_entry, example_entry]"
  have b: "(1::nat) \<le> 3" "3 \<le> max_limit ?cfg"
    by (simp_all add: small_pages_def)
  have pages: "[1..<3::nat] = [1, 2]"
    by (simp add: upt_rec)
  have h: "\<forall>page\<in>set [1..<3]. \<exists>resp. fetch_page ?cfg page = Inr resp \<and> status_code resp = 200
           \<and> parse_results resp = Inr (JArr (?results page))
           \<and> page_limit ?cfg \<le> length (?results page)
           \<and> snd (process_results (?results page) []) = None"
  proof
    fix page assume "page \<in> set [1..<3::nat]"
    then have "page = 1 \<or> page = 2"
      unfolding pages by simp
    then have "fetch_page ?cfg page = Inr (ok_response [example_entry, example_entry])"
      using fetch_failing_1 fetch_failing_2 by blast
    moreover have "page_limit ?cfg \<le> length [example_entry, example_entry]"
      by (simp add: small_pages_def)
    ultimately show "\<exists>resp. fetch_page ?cfg page = Inr resp \<and> status_code resp = 200
           \<and> parse_results resp = Inr (JArr (?results page))
           \<and> page_limit ?cfg \<le> length (?results page)
           \<and> snd (process_results (?results page) []) = None"
      using status_ok_response parse_ok_response example_entries_processed by simp
  qed
  have s: "status_code \<lparr>status_code = 503, loads_text = None\<rparr> \<noteq> 200"
    by simp
  have pages': "[1..<3 + 1::nat] = [1, 2, 3]"
    by (simp add: upt_rec)
  have "collect ?cfg =
     \<lparr>all_articles = concat (map (\<lambda>page. fst (process_results (?results page) [])) [1..<3]),
      fetched = [1..<3 + 1]\<rparr>"
    using b h fetch_failing_3 s by (rule stops_on_bad_status)
  then have "collect ?cfg =
     \<lparr>all_articles = [example_article, example_article, example_article, example_article],
      fetched = [1, 2, 3]\<rparr>"
    unfolding pages pages' example_entries_processed by simp
  with b fetch_failing_3 show ?thesis
    by blast
qed




text \<open>
  C4. No title and no text of a collected article contains one of the seven patterns of
  the repair table; more generally no output of \<open>clean_text\<close> does, so no substitution
  leaves or brings back a pattern.
\<close>

theorem collected_text_repaired:
  assumes "a \<in> set (all_articles (collect cfg))" "p \<in> fst ` set repair_table"
  shows "\<not> contains p (art_title a) \<and> \<not> contains p (art_text a) \<and> \<not> contains p (clean_text s)"
proof -
  from collect_mem [OF assms(1)] obtain e where "extract_entry e = Inr a"
    by blast
  from extract_entry_Inr [OF this] obtain wt summary where
    "art_title a = clean_text wt" "art_text a = clean_text summary"
    by blast
  with clean_text_no_pattern [OF assms(2)] show ?thesis
    by simp
qed

theorem collected_text_repaired_witness:
  "example_article \<in> set (all_articles (collect (notebook short_upstream (lit ''KEY''))))
   \<and> [226, 8364, 8482] \<in> fst ` set repair_table
   \<and> \<not> contains [226, 8364, 8482] (art_title example_article)
   \<and> \<not> contains [226, 8364, 8482] (art_text example_article)"
proof -
  have m: "example_article \<in> set (all_articles (collect (notebook short_upstream (lit ''KEY''))))"
    by (simp add: short_run)
  have t: "[226, 8364, 8482] \<in> fst ` set repair_table"
    by (simp add: repair_table_def)
  from collected_text_repaired [OF m t] m t show ?thesis
    by blast
qed

text \<open>
  C5. The seven substitutions of the repair table, applied once each in any order, give
  the same string as \<open>clean_text\<close>, on every input.
\<close>

theorem clean_text_any_order:
  assumes "mset tab = mset repair_table"
  shows "apply_substs tab text = clean_text text"
proof -
  have "fold (\<lambda>(old, new). str_replace old new) tab = fold (\<lambda>(old, new). str_replace old new) repair_table"
  proof (rule fold_multiset_equiv)
    fix a b assume "a \<in> set tab" "b \<in> set tab"
    with assms have "a \<in> set repair_table" "b \<in> set repair_table"
      by (metis set_mset_mset)+
    then show "(\<lambda>(old, new). str_replace old new) a \<circ> (\<lambda>(old, new). str_replace old new) b
       = (\<lambda>(old, new). str_replace old new) b \<circ> (\<lambda>(old, new). str_replace old new) a"
      by (rule repair_table_commute)
  qed (rule assms)
  then show ?thesis
    by (simp add: clean_text_table apply_substs_def)
qed

theorem clean_text_any_order_witness:
  "mset (rev repair_table) = mset repair_table
   \<and> apply_substs (rev repair_table) [226, 8364, 8482, 195, 169] = clean_text [226, 8364, 8482, 195, 169]"
  using clean_text_any_order [of "rev repair_table" "[226, 8364, 8482, 195, 169]"]
  by simp

text \<open>
  C6. Every collected article was extracted from an entry of a fetched page, and its
  authors are exactly the cleaned names of that entry's tags of kind \<open>contributor\<close>, in
  the order of the tags; tags of another kind give nothing.
\<close>

theorem authors_are_contributors:
  assumes "a \<in> set (all_articles (collect cfg))"
  shows "\<exists>page\<in>set [1..<max_limit cfg + 1]. \<exists>entry\<in>set (page_entries cfg page). \<exists>tags.
           extract_entry entry = Inr a
         \<and> and_then (getitem_key entry (lit ''tags'')) py_iter = Inr tags
         \<and> map Inr (art_authors a) = map author_of (filter is_contributor tags)"
proof -
  from collect_mem [OF assms] obtain page e where
    pe: "page \<in> set [1..<max_limit cfg + 1]" "e \<in> set (page_entries cfg page)"
    and ex: "extract_entry e = Inr a"
    by blast
  from extract_entry_Inr [OF ex] obtain tg tags where
    tg: "getitem_key e (lit ''tags'') = Inr tg" "py_iter tg = Inr tags"
    and au: "collect_authors tags [] = Inr (art_authors a)"
    by blast
  from collect_authors_Inr [OF au]
  have "map Inr (art_authors a) = map author_of (filter is_contributor tags)"
    by simp
  moreover from tg have "and_then (getitem_key e (lit ''tags'')) py_iter = Inr tags"
    by simp
  ultimately show ?thesis
    using pe ex by blast
qed

theorem authors_are_contributors_witness:
  "example_article \<in> set (all_articles (collect (notebook short_upstream (lit ''KEY''))))
   \<and> (\<exists>page\<in>set [1..<max_limit (notebook short_upstream (lit ''KEY'')) + 1].
       \<exists>entry\<in>set (page_entries (notebook short_upstream (lit ''KEY'')) page). \<exists>tags.
           extract_entry entry = Inr example_article
         \<and> and_then (getitem_key entry (lit ''tags'')) py_iter = Inr tags
         \<and> map Inr (art_authors example_article) = map author_of (filter is_contributor tags))"
proof -
  have m: "example_article \<in> set (all_articles (collect (notebook short_upstream (lit ''KEY''))))"
    by (simp add: short_run)
  from authors_are_contributors [OF m] m show ?thesis
    by blast
qed

text \<open>
  C7. An entry whose kind is not \<open>article\<close> is skipped before any field is read:
  processing a page gives the same accumulator and the same outcome as with the entry
  removed, whatever else the entry holds. Every collected article was extracted from an
  entry of a fetched page whose kind is \<open>article\<close>.
\<close>

theorem other_kinds_skipped:
  "(other_kind entry \<longrightarrow>
      process_results (before @ entry # after) acc = process_results (before @ after) acc)
   \<and> (a \<in> set (all_articles (collect cfg)) \<longrightarrow>
        (\<exists>page\<in>set [1..<max_limit cfg + 1]. \<exists>e\<in>set (page_entries cfg page).
           \<not> other_kind e \<and> extract_entry e = Inr a))"
proof (intro conjI impI)
  assume "other_kind entry"
  then show "process_results (before @ entry # after) acc = process_results (before @ after) acc"
    by (rule process_results_skip)
next
  assume "a \<in> set (all_articles (collect cfg))"
  from collect_mem [OF this] obtain page e where
    "page \<in> set [1..<max_limit cfg + 1]" "e \<in> set (page_entries cfg page)"
    "getitem_key e (lit ''type'') = Inr (JStr (lit ''article''))" "extract_entry e = Inr a"
    by blast
  moreover from this(3) have "\<not> other_kind e"
    by (simp add: other_kind_def)
  ultimately show "\<exists>page\<in>set [1..<max_limit cfg + 1]. \<exists>e\<in>set (page_entries cfg page).
           \<not> other_kind e \<and> extract_entry e = Inr a"
    by blast
qed

theorem other_kinds_skipped_witness:
  "other_kind example_liveblog
   \<and> process_results ([example_entry] @ example_liveblog # [example_entry]) []
       = process_results ([example_entry] @ [example_entry]) []
   \<and> example_article \<in> set (all_articles (collect (notebook short_upstream (lit ''KEY''))))
   \<and> (\<exists>page\<in>set [1..<max_limit (notebook short_upstream (lit ''KEY'')) + 1].
        \<exists>e\<in>set (page_entries (notebook short_upstream (lit ''KEY'')) page).
           \<not> other_kind e \<and> extract_entry e = Inr example_article)"
proof -
  have m: "example_article \<in> set (all_articles (collect (notebook short_upstream (lit ''KEY''))))"
    by (simp add: short_run)
  from other_kinds_skipped [of example_liveblog "[example_entry]" "[example_entry]" "[]"
      example_article "notebook short_upstream (lit ''KEY'')"] example_liveblog_other m
  show ?thesis by blast
qed

text \<open>
  C8. A call of \<open>request_api\<close> asks the upstream for the URL made of the site, the
  endpoint, a question mark and the query string, in which every parameter appears under
  its name with each underscore turned into a hyphen, followed by \<open>=\<close> and \<open>str\<close>
  of its value; the query string ends with the \<open>api-key\<close> parameter. No name brings
  an underscore (code point 95) into the URL: the underscores after the question mark
  are those of the values and of the key, and no other.
\<close>

theorem request_api_url:
  "request_api get endpoint apiKey params
     = get (API_SITE @ endpoint @ lit ''?'' @ query_string apiKey params)
   \<and> request_url endpoint apiKey params
       = API_SITE @ endpoint @ lit ''?'' @ query_string apiKey params
   \<and> contains (lit ''api-key='' @ apiKey) (request_url endpoint apiKey params)
   \<and> (\<forall>(key, val)\<in>set params.
        contains (hyphenate key @ lit ''='' @ py_str val) (request_url endpoint apiKey params)
        \<and> 95 \<notin> set (hyphenate key))
   \<and> filter (\<lambda>c. c = 95)
        (drop (length (API_SITE @ endpoint @ lit ''?'')) (request_url endpoint apiKey params))
      = concat (map (\<lambda>(key, val). filter (\<lambda>c. c = 95) (py_str val)) (rev params))
        @ filter (\<lambda>c. c = 95) apiKey"
proof (intro conjI)
  let ?enc = "\<lambda>(key, val). hyphenate key @ lit ''='' @ py_str val @ lit ''&''"
  note url = request_url_eq [of endpoint apiKey params]
  show "request_api get endpoint apiKey params
     = get (API_SITE @ endpoint @ lit ''?'' @ query_string apiKey params)"
    by (simp add: request_api_def url)
  show "request_url endpoint apiKey params
       = API_SITE @ endpoint @ lit ''?'' @ query_string apiKey params"
    by (rule url)
  have "contains (lit ''api-key='' @ apiKey) (lit ''api-key='' @ apiKey)"
    by (simp add: contains_iff_sublist)
  from contains_appendI [OF this, of "API_SITE @ endpoint @ lit ''?'' @ concat (map ?enc (rev params))" "[]"]
  show "contains (lit ''api-key='' @ apiKey) (request_url endpoint apiKey params)"
    unfolding url query_string_def by simp
  show "\<forall>(key, val)\<in>set params.
        contains (hyphenate key @ lit ''='' @ py_str val) (request_url endpoint apiKey params)
        \<and> 95 \<notin> set (hyphenate key)"
  proof (clarify, intro conjI)
    fix key val assume kv: "(key, val) \<in> set params"
    let ?p = "hyphenate key @ lit ''='' @ py_str val"
    have "contains ?p ?p"
      by (simp add: contains_iff_sublist)
    from contains_appendI [OF this, of "[]" "lit ''&''"]
    have "contains ?p (?enc (key, val))"
      by simp
    moreover from kv have "(key, val) \<in> set (rev params)"
      by simp
    ultimately have "contains ?p (concat (map ?enc (rev params)))"
      by (rule contains_concat_map [rotated])
    from contains_appendI [OF this, of "API_SITE @ endpoint @ lit ''?''" "lit ''api-key='' @ apiKey"]
    show "contains ?p (request_url endpoint apiKey params)"
      unfolding url query_string_def by simp
    show "95 \<notin> set (hyphenate key)"
      by (auto simp: hyphenate_def)
  qed
  have "drop (length (API_SITE @ endpoint @ lit ''?'')) (request_url endpoint apiKey params)
      = query_string apiKey params"
    unfolding url by (simp del: append_assoc add: append_assoc [symmetric])
  then show "filter (\<lambda>c. c = 95)
        (drop (length (API_SITE @ endpoint @ lit ''?'')) (request_url endpoint apiKey params))
      = concat (map (\<lambda>(key, val). filter (\<lambda>c. c = 95) (py_str val)) (rev params))
        @ filter (\<lambda>c. c = 95) apiKey"
    by (simp only: query_underscores)
qed

theorem request_api_url_witness:
  "(lit ''page_size'', PInt 50) \<in> set [(lit ''page_size'', PInt 50), (lit ''page'', PInt 3)]
   \<and> request_api echo_upstream (lit ''search'') (lit ''KEY'')
        [(lit ''page_size'', PInt 50), (lit ''page'', PInt 3)]
       = Inr \<lparr>status_code = 200,
              loads_text = Some (JStr
                (lit ''https://content.guardianapis.com/search?page=3&page-size=50&api-key=KEY''))\<rparr>
   \<and> contains (lit ''page-size=50'')
        (request_url (lit ''search'') (lit ''KEY'') [(lit ''page_size'', PInt 50), (lit ''page'', PInt 3)])"
proof -
  let ?params = "[(lit ''page_size'', PInt 50), (lit ''page'', PInt 3)]"
  have m: "(lit ''page_size'', PInt 50) \<in> set ?params"
    by simp
  have h: "hyphenate (lit ''page_size'') @ lit ''='' @ py_str (PInt 50) = lit ''page-size=50''"
    by (simp add: hyphenate_def lit_def)
  have q: "API_SITE @ lit ''search'' @ lit ''?'' @ query_string (lit ''KEY'') ?params
      = lit ''https://content.guardianapis.com/search?page=3&page-size=50&api-key=KEY''"
    by (simp add: API_SITE_def query_string_def hyphenate_def lit_def)
  have "contains (hyphenate (lit ''page_size'') @ lit ''='' @ py_str (PInt 50))
          (request_url (lit ''search'') (lit ''KEY'') ?params)"
    using request_api_url [of echo_upstream "lit ''search''" "lit ''KEY''" ?params] m by blast
  moreover have "request_api echo_upstream (lit ''search'') (lit ''KEY'') ?params
      = echo_upstream (API_SITE @ lit ''search'' @ lit ''?'' @ query_string (lit ''KEY'') ?params)"
    using request_api_url [of echo_upstream "lit ''search''" "lit ''KEY''" ?params] by blast
  ultimately show ?thesis
    using m unfolding h q echo_upstream_def by blast
qed

text \<open>
  C9. A fetched page answers 200 and, after records that were processed without an
  exception, holds an article whose extraction raises. Then the loop ends with that page
  as the last one fetched, no exception is left, and the articles appended from the
  earlier records of the page are in the accumulator, after those of the earlier pages.
\<close>

theorem fault_keeps_earlier_entries:
  assumes "page \<in> set (fetched (collect cfg))"
    and "fetch_page cfg page = Inr resp" "status_code resp = 200"
    and "parse_results resp = Inr (JArr (good @ bad # rest))"
    and "process_results good [] = (arts, None)"
    and "getitem_key bad (lit ''type'') = Inr (JStr (lit ''article''))"
    and "extract_entry bad = Inl err"
  shows "fetched (collect cfg) = [1..<page + 1]
       \<and> all_articles (collect cfg) =
           all_articles (collect_pages cfg [1..<page] init_state) @ arts"
proof -
  let ?before = "collect_pages cfg [1..<page] init_state"
  from collect_reach [OF assms(1)] have
    c: "collect cfg = collect_pages cfg (page # [Suc page..<max_limit cfg + 1]) ?before"
    and f: "fetched ?before = [1..<page]"
    by simp_all
  have app: "process_results (xs @ ys) acc =
      (case process_results xs acc of
         (acc', None) \<Rightarrow> process_results ys acc'
       | (acc', Some e) \<Rightarrow> (acc', Some e))" for xs ys acc
    by (induction xs arbitrary: acc) (auto split: sum.splits)
  have "process_results good (all_articles ?before) = (all_articles ?before @ arts, None)"
    using process_results_acc [of good "all_articles ?before"] assms(5) by simp
  then have pr: "process_results (good @ bad # rest) (all_articles ?before)
      = (all_articles ?before @ arts, Some err)"
    using assms(6,7) by (simp add: app)
  have "[1..<page + 1] = [1..<page] @ [page]"
    using collect_fetched_bounds [OF assms(1)] by simp
  with c f pr
    collect_pages_fault [OF assms(2-4), of ?before err "[Suc page..<max_limit cfg + 1]"]
  show ?thesis by simp
qed

theorem fault_keeps_earlier_entries_witness:
  "1 \<in> set (fetched (collect (notebook faulty_upstream (lit ''KEY''))))
   \<and> fetch_page (notebook faulty_upstream (lit ''KEY'')) 1
       = Inr (ok_response ([example_entry] @ example_no_block # [example_entry]))
   \<and> process_results [example_entry] [] = ([example_article], None)
   \<and> getitem_key example_no_block (lit ''type'') = Inr (JStr (lit ''article''))
   \<and> extract_entry example_no_block = Inl IndexError
   \<and> fetched (collect (notebook faulty_upstream (lit ''KEY''))) = [1]
   \<and> all_articles (collect (notebook faulty_upstream (lit ''KEY''))) = [example_article]"
proof -
  let ?cfg = "notebook faulty_upstream (lit ''KEY'')"
  have m: "1 \<in> set (fetched (collect ?cfg))"
    by (rule first_page_fetched) (simp add: notebook_def)
  have p: "process_results [example_entry] [] = ([example_article], None)"
    by (simp add: example_entry_type example_entry_extract)
  from fault_keeps_earlier_entries [OF m fetch_faulty status_ok_response parse_ok_response p
      example_no_block_type example_no_block_fault]
    m p fetch_faulty example_no_block_type example_no_block_fault
  show ?thesis
    by (simp add: init_state_def)
qed

text \<open>
  C10. Every collected article was extracted from an entry of a fetched page, and its
  date is the value of that entry's \<open>webPublicationDate\<close> as received, while its
  title and its text are \<open>clean_text\<close> of the entry's title and body summary.
\<close>

theorem date_is_copied:
  assumes "a \<in> set (all_articles (collect cfg))"
  shows "\<exists>page\<in>set [1..<max_limit cfg + 1]. \<exists>entry\<in>set (page_entries cfg page). \<exists>wt summary.
           extract_entry entry = Inr a
         \<and> getitem_key entry (lit ''webPublicationDate'') = Inr (art_date a)
         \<and> getitem_key entry (lit ''webTitle'') = Inr (JStr wt) \<and> art_title a = clean_text wt
         \<and> body_summary entry = Inr (JStr summary) \<and> art_text a = clean_text summary"
proof -
  from collect_mem [OF assms] obtain page e where
    pe: "page \<in> set [1..<max_limit cfg + 1]" "e \<in> set (page_entries cfg page)"
    and ex: "extract_entry e = Inr a"
    by blast
  from extract_entry_Inr [OF ex] obtain wt blocks body block summary where
    f: "getitem_key e (lit ''webTitle'') = Inr (JStr wt)" "art_title a = clean_text wt"
      "getitem_key e (lit ''webPublicationDate'') = Inr (art_date a)"
      "getitem_key e (lit ''blocks'') = Inr blocks"
      "getitem_key blocks (lit ''body'') = Inr body"
      "getitem_0 body = Inr block"
      "getitem_key block (lit ''bodyTextSummary'') = Inr (JStr summary)"
      "art_text a = clean_text summary"
    by blast
  then have "body_summary e = Inr (JStr summary)"
    by (simp add: body_summary_def)
  with pe ex f show ?thesis
    by blast
qed

theorem date_is_copied_witness:
  "example_article \<in> set (all_articles (collect (notebook short_upstream (lit ''KEY''))))
   \<and> art_date example_article = JStr (lit ''2021-03-11T10:00:00Z'')
   \<and> (\<exists>page\<in>set [1..<max_limit (notebook short_upstream (lit ''KEY'')) + 1].
       \<exists>entry\<in>set (page_entries (notebook short_upstream (lit ''KEY'')) page). \<exists>wt summary.
           extract_entry entry = Inr example_article
         \<and> getitem_key entry (lit ''webPublicationDate'') = Inr (art_date example_article)
         \<and> getitem_key entry (lit ''webTitle'') = Inr (JStr wt)
         \<and> art_title example_article = clean_text wt
         \<and> body_summary entry = Inr (JStr summary)
         \<and> art_text example_article = clean_text summary)"
proof -
  have m: "example_article \<in> set (all_articles (collect (notebook short_upstream (lit ''KEY''))))"
    by (simp add: short_run)
  have d: "art_date example_article = JStr (lit ''2021-03-11T10:00:00Z'')"
    by (simp add: example_article_def)
  from date_is_copied [OF m] m d show ?thesis
    by blast
qed

end
